theory Spec2Isabelle
  imports Main "HOL-Library.Word"
begin

unbundle bit_operations_syntax

section \<open>The PIO state machine\<close>

text \<open>
  \<^verbatim>\<open>src/laser_sound_card/ppm.pio\<close> holds two programs for one PIO state machine each. A
  state machine executes one instruction per clock cycle; an instruction that stalls
  (\<^verbatim>\<open>wait\<close>, a blocking \<^verbatim>\<open>pull\<close> or \<^verbatim>\<open>push\<close>) is executed again in the next
  cycle, and the delay \<^verbatim>\<open>[n]\<close> of an instruction is spent after the instruction has
  completed. The model below is cycle accurate for the instructions the two programs use.

  Only what the programs touch is modelled: the scratch registers, the two shift
  registers (without their shift counters: no \<^verbatim>\<open>in\<close> or \<^verbatim>\<open>out\<close> occurs), one input pin
  (pin 0 of the \<^verbatim>\<open>wait\<close> mapping, also taken as the \<^verbatim>\<open>jmp pin\<close> source), the lowest pin
  of the \<^verbatim>\<open>set\<close> group, the side-set pin, and both FIFOs. The input is read as it is
  presented in the cycle: the input synchroniser delays every level by the same two
  cycles and is left out. The depth of the RX FIFO is a parameter.
\<close>

type_synonym u32 = "32 word"

datatype jmp_cond = Always | XDec | YDec | Pin

datatype mov_dest = DstX | DstY | DstISR

datatype mov_op = MovNone | MovInvert

datatype mov_src = SrcX | SrcY | SrcNULL | SrcOSR

datatype opcode =
    JMP jmp_cond nat
  | WAIT_PIN bool
  | PUSH bool
  | PULL bool
  | MOV mov_dest mov_op mov_src
  | SET_PINS bool

text \<open>
  \<^verbatim>\<open>PUSH b\<close> and \<^verbatim>\<open>PULL b\<close> carry the Block bit of the encoding. The assembler sets
  it for \<^verbatim>\<open>push\<close>, \<^verbatim>\<open>push block\<close>, \<^verbatim>\<open>pull\<close> and \<^verbatim>\<open>pull block\<close> and clears it only
  for an explicit \<^verbatim>\<open>noblock\<close>. \<^verbatim>\<open>nop\<close> is assembled as \<^verbatim>\<open>mov y, y\<close>.
\<close>

definition NOP :: opcode where
  "NOP = MOV DstY MovNone SrcY"

datatype instr = Instr (op: opcode) (side: "bool option") (delay: nat)

record program =
  instrs :: "instr list"
  wrap_target :: nat
  wrap :: nat

record sm =
  pc :: nat
  x :: u32
  y :: u32
  osr :: u32
  isr :: u32
  delay_left :: nat
  set_pin :: bool
  side_pin :: bool
  txf :: "u32 list"
  rxf :: "u32 list"

definition advance :: "program \<Rightarrow> sm \<Rightarrow> sm" where
  "advance p s = s\<lparr>pc := (if pc s = wrap p then wrap_target p else pc s + 1)\<rparr>"

definition src_value :: "mov_src \<Rightarrow> sm \<Rightarrow> u32" where
  "src_value r s = (case r of SrcX \<Rightarrow> x s | SrcY \<Rightarrow> y s | SrcNULL \<Rightarrow> 0 | SrcOSR \<Rightarrow> osr s)"

definition apply_op :: "mov_op \<Rightarrow> u32 \<Rightarrow> u32" where
  "apply_op f v = (case f of MovNone \<Rightarrow> v | MovInvert \<Rightarrow> NOT v)"

definition write_dest :: "mov_dest \<Rightarrow> u32 \<Rightarrow> sm \<Rightarrow> sm" where
  "write_dest d v s = (case d of DstX \<Rightarrow> s\<lparr>x := v\<rparr> | DstY \<Rightarrow> s\<lparr>y := v\<rparr> | DstISR \<Rightarrow> s\<lparr>isr := v\<rparr>)"

text \<open>
  One instruction in one cycle; \<open>None\<close> is a stall. \<open>depth\<close> is the depth of the RX FIFO
  and \<open>inp\<close> the level of the input pin in this cycle.
  \<^item> \<^verbatim>\<open>jmp x--\<close> and \<^verbatim>\<open>jmp y--\<close> branch when the register is non-zero before the
    decrement, and decrement in either case (the register wraps from 0 to all ones).
  \<^item> \<^verbatim>\<open>push\<close> with room in the FIFO appends the ISR and clears it; with a full FIFO it
    stalls when blocking, and otherwise drops the value, clears the ISR and goes on.
  \<^item> \<^verbatim>\<open>pull\<close> takes the oldest word of the TX FIFO; with an empty FIFO it stalls when
    blocking, and otherwise copies X to the OSR.
\<close>

fun exec :: "program \<Rightarrow> nat \<Rightarrow> bool \<Rightarrow> opcode \<Rightarrow> sm \<Rightarrow> sm option" where
  "exec p depth inp (JMP c a) s =
     (case c of
        Always \<Rightarrow> Some (s\<lparr>pc := a\<rparr>)
      | XDec \<Rightarrow> Some ((if x s \<noteq> 0 then s\<lparr>pc := a\<rparr> else advance p s)\<lparr>x := x s - 1\<rparr>)
      | YDec \<Rightarrow> Some ((if y s \<noteq> 0 then s\<lparr>pc := a\<rparr> else advance p s)\<lparr>y := y s - 1\<rparr>)
      | Pin \<Rightarrow> Some (if inp then s\<lparr>pc := a\<rparr> else advance p s))"
| "exec p depth inp (WAIT_PIN pol) s =
     (if inp = pol then Some (advance p s) else None)"
| "exec p depth inp (PUSH block) s =
     (if length (rxf s) < depth then Some (advance p (s\<lparr>rxf := rxf s @ [isr s], isr := 0\<rparr>))
      else if block then None
      else Some (advance p (s\<lparr>isr := 0\<rparr>)))"
| "exec p depth inp (PULL block) s =
     (case txf s of
        v # rest \<Rightarrow> Some (advance p (s\<lparr>osr := v, txf := rest\<rparr>))
      | [] \<Rightarrow> if block then None else Some (advance p (s\<lparr>osr := x s\<rparr>)))"
| "exec p depth inp (MOV d f r) s =
     Some (advance p (write_dest d (apply_op f (src_value r s)) s))"
| "exec p depth inp (SET_PINS v) s = Some (advance p (s\<lparr>set_pin := v\<rparr>))"

text \<open>
  One clock cycle. Pending delay cycles are spent first. The side-set value is driven
  whether or not the instruction stalls; the delay starts when the instruction completes.
\<close>

definition pio_step :: "program \<Rightarrow> nat \<Rightarrow> bool \<Rightarrow> sm \<Rightarrow> sm" where
  "pio_step p depth inp s =
     (if 0 < delay_left s then s\<lparr>delay_left := delay_left s - 1\<rparr>
      else
        let i = instrs p ! pc s;
            s1 = (case side i of None \<Rightarrow> s | Some b \<Rightarrow> s\<lparr>side_pin := b\<rparr>)
        in case exec p depth inp (op i) s1 of
             None \<Rightarrow> s1
           | Some s2 \<Rightarrow> s2\<lparr>delay_left := delay i\<rparr>)"

text \<open>Running over a waveform: one input level per clock cycle.\<close>

fun pio_run :: "program \<Rightarrow> nat \<Rightarrow> bool list \<Rightarrow> sm \<Rightarrow> sm" where
  "pio_run p depth [] s = s"
| "pio_run p depth (i # ins) s = pio_run p depth ins (pio_step p depth i s)"

text \<open>
  What is observed of the state after each cycle, for instance the level of the
  side-set pin (\<open>obs = side_pin\<close>).
\<close>

fun pio_trace :: "(sm \<Rightarrow> 'a) \<Rightarrow> program \<Rightarrow> nat \<Rightarrow> bool list \<Rightarrow> sm \<Rightarrow> 'a list" where
  "pio_trace obs p depth [] s = []"
| "pio_trace obs p depth (i # ins) s =
     obs (pio_step p depth i s) # pio_trace obs p depth ins (pio_step p depth i s)"

text \<open>Rising edges of a trace, from the level \<open>prev\<close> before it.\<close>

fun rising_edges :: "bool \<Rightarrow> bool list \<Rightarrow> nat" where
  "rising_edges prev [] = 0"
| "rising_edges prev (b # bs) = (if b \<and> \<not> prev then 1 else 0) + rising_edges b bs"

subsection \<open>The two programs\<close>

text \<open>
  \<^verbatim>\<open>.program pulse_generator\<close>, \<^verbatim>\<open>.side_set 1\<close>; the label \<^verbatim>\<open>pause\<close> is address 4.
\<close>

definition pulse_generator :: program where
  "pulse_generator = \<lparr>
     instrs = [
       Instr (PULL True) (Some False) 0,
       Instr (MOV DstX MovNone SrcOSR) (Some False) 0,
       Instr (SET_PINS True) (Some True) 0,
       Instr (SET_PINS False) (Some False) 0,
       Instr NOP (Some False) 0,
       Instr (JMP XDec 4) (Some False) 0,
       Instr (SET_PINS True) (Some True) 0,
       Instr (SET_PINS False) (Some False) 0],
     wrap_target = 0,
     wrap = 7\<rparr>"

text \<open>
  \<^verbatim>\<open>.program pulse_detector\<close>; \<^verbatim>\<open>count_loop\<close> is address 4 and \<^verbatim>\<open>finish\<close> address 6.
  The last instruction is written \<^verbatim>\<open>push\<close>, with neither \<^verbatim>\<open>block\<close> nor \<^verbatim>\<open>noblock\<close>.
\<close>

definition pulse_detector :: program where
  "pulse_detector = \<lparr>
     instrs = [
       Instr (WAIT_PIN False) None 2,
       Instr (WAIT_PIN True) None 0,
       Instr (WAIT_PIN False) None 2,
       Instr (MOV DstY MovInvert SrcNULL) None 0,
       Instr (JMP Pin 6) None 0,
       Instr (JMP YDec 4) None 0,
       Instr (MOV DstISR MovInvert SrcY) None 0,
       Instr (PUSH True) None 0],
     wrap_target = 0,
     wrap = 7\<rparr>"

text \<open>The state machine after a reset, with empty FIFOs.\<close>

definition sm_reset :: sm where
  "sm_reset = \<lparr>pc = 0, x = 0, y = 0, osr = 0, isr = 0, delay_left = 0,
     set_pin = False, side_pin = False, txf = [], rxf = []\<rparr>"

section \<open>The USB descriptor provider\<close>

text \<open>
  \<^verbatim>\<open>src/laser_PDM/usb_descriptors.c\<close> (the audio device) and the second descriptor file
  (the CDC device) hold the same \<^verbatim>\<open>tud_descriptor_string_cb\<close>, over different string
  tables. The function is modelled once, with the table as a parameter.

  Memory is explicit: a pointer of the table is \<open>None\<close> (\<^verbatim>\<open>NULL\<close>) or the bytes of the
  object it points to, the scratch buffer \<^verbatim>\<open>_desc_str\<close> is a list of 16-bit code units,
  and an access outside an object is a fault of the model.
\<close>

type_synonym u8 = "8 word"
type_synonym u16 = "16 word"

datatype fault = NullDeref | OutOfBoundsRead | OutOfBoundsWrite

text \<open>What the callback returns: \<^verbatim>\<open>NULL\<close> or the address of \<^verbatim>\<open>_desc_str\<close>.\<close>

datatype desc_ptr = NULL | DESC_STR

text \<open>A string literal is its characters and the terminating zero byte.\<close>

definition cstr :: "string \<Rightarrow> u8 list" where
  "cstr s = map (\<lambda>c. of_nat (of_char c)) s @ [0]"

text \<open>\<^verbatim>\<open>string_desc_arr\<close> of \<^verbatim>\<open>src/laser_PDM/usb_descriptors.c\<close>.\<close>

definition string_desc_arr_audio :: "u8 list option list" where
  "string_desc_arr_audio = [
     Some [0x09, 0x04],
     Some (cstr ''IPM Group''),
     Some (cstr ''Laser Sound Card''),
     None,
     Some (cstr ''Laser Speakers''),
     Some (cstr ''Laser Microphone'')]"

text \<open>\<^verbatim>\<open>string_desc_arr\<close> of the CDC device.\<close>

definition string_desc_arr_cdc :: "u8 list option list" where
  "string_desc_arr_cdc = [
     Some [0x09, 0x04],
     Some (cstr ''ppm_loop''),
     Some (cstr ''ppm''),
     None,
     Some (cstr ''ppm_loop''),
     Some (cstr ''PPMReset'')]"

text \<open>
  A table with a string of 40 characters, longer than the buffer: neither device has one.
\<close>

definition long_table :: "u8 list option list" where
  "long_table = [Some [0x09, 0x04], Some (cstr ''0123456789012345678901234567890123456789'')]"

definition STRID_LANGID :: u8 where
  "STRID_LANGID = 0"

definition STRID_SERIAL :: u8 where
  "STRID_SERIAL = 3"

text \<open>\<^verbatim>\<open>strlen\<close>: the bytes before the first zero; \<open>None\<close> when the object holds none.\<close>

fun strlen :: "u8 list \<Rightarrow> nat option" where
  "strlen [] = None"
| "strlen (b # bs) = (if b = 0 then Some 0 else map_option Suc (strlen bs))"

text \<open>A write of one code unit to \<^verbatim>\<open>_desc_str[i]\<close>.\<close>

definition store :: "nat \<Rightarrow> u16 \<Rightarrow> u16 list \<Rightarrow> fault + u16 list" where
  "store i v buf = (if i < length buf then Inr (buf[i := v]) else Inl OutOfBoundsWrite)"

text \<open>
  \<^verbatim>\<open>memcpy(&_desc_str[i], src, 2)\<close> on the little-endian target: the first byte is the low
  byte of the code unit.
\<close>

definition memcpy2 :: "nat \<Rightarrow> u8 list option \<Rightarrow> u16 list \<Rightarrow> fault + u16 list" where
  "memcpy2 i src buf =
     (case src of
        None \<Rightarrow> Inl NullDeref
      | Some bs \<Rightarrow>
          (case bs of
             b0 # b1 # _ \<Rightarrow> store i (ucast b0 OR push_bit 8 (ucast b1)) buf
           | _ \<Rightarrow> Inl OutOfBoundsRead))"

text \<open>
  The conversion loop \<^verbatim>\<open>for (i = 0; i < chr_count; i++) _desc_str[1 + i] = str[i]\<close>,
  from the current \<open>i\<close>. The table holds ASCII only, where the conversion of \<^verbatim>\<open>char\<close> to
  \<^verbatim>\<open>uint16_t\<close> is the byte itself.
\<close>

function copy_loop :: "u8 list \<Rightarrow> nat \<Rightarrow> nat \<Rightarrow> u16 list \<Rightarrow> fault + u16 list" where
  "copy_loop str i chr_count buf =
     (if i < chr_count then
        (if i < length str then
           (case store (1 + i) (ucast (str ! i)) buf of
              Inl f \<Rightarrow> Inl f
            | Inr buf' \<Rightarrow> copy_loop str (i + 1) chr_count buf')
         else Inl OutOfBoundsRead)
      else Inr buf)"
  by pat_completeness auto
termination
  by (relation "measure (\<lambda>(str, i, chr_count, buf). chr_count - i)") auto

declare copy_loop.simps [simp del]

text \<open>
  Modelled from the spec: \<^verbatim>\<open>board_usb_get_serial\<close>, the board-level provider of the
  unique serial, which belongs to the USB stack and is not in the repository. It "writes
  up to 32 UTF-16 code units into the scratch buffer and reports how many were written":
  \<open>serial\<close> is the identifier the board has, \<open>off\<close> the offset in \<^verbatim>\<open>_desc_str\<close> the
  callback passes (\<^verbatim>\<open>_desc_str + 1\<close>) and \<open>max_chars\<close> the limit it passes.
\<close>

fun store_units :: "nat \<Rightarrow> u16 list \<Rightarrow> u16 list \<Rightarrow> fault + u16 list" where
  "store_units i [] buf = Inr buf"
| "store_units i (v # vs) buf =
     (case store i v buf of Inl f \<Rightarrow> Inl f | Inr buf' \<Rightarrow> store_units (i + 1) vs buf')"

definition board_usb_get_serial ::
  "u16 list \<Rightarrow> nat \<Rightarrow> nat \<Rightarrow> u16 list \<Rightarrow> fault + (nat \<times> u16 list)" where
  "board_usb_get_serial serial off max_chars buf =
     (case store_units off (take max_chars serial) buf of
        Inl f \<Rightarrow> Inl f
      | Inr buf' \<Rightarrow> Inr (length (take max_chars serial), buf'))"

text \<open>
  The header \<^verbatim>\<open>(uint16_t)((TUSB_DESC_STRING << 8) | (2 * chr_count + 2))\<close>. The value of
  \<^verbatim>\<open>TUSB_DESC_STRING\<close> is declared by the USB stack; it is the parameter \<open>tag\<close>, one
  byte as every descriptor type.
\<close>

definition desc_header :: "u8 \<Rightarrow> nat \<Rightarrow> u16" where
  "desc_header tag chr_count = push_bit 8 (ucast tag) OR of_nat (2 * chr_count + 2)"

text \<open>The two bytes of a code unit.\<close>

definition hi_byte :: "u16 \<Rightarrow> u8" where
  "hi_byte w = ucast (drop_bit 8 w)"

definition lo_byte :: "u16 \<Rightarrow> u8" where
  "lo_byte w = ucast w"

definition write_header :: "u8 \<Rightarrow> nat \<Rightarrow> u16 list \<Rightarrow> fault + (desc_ptr \<times> u16 list)" where
  "write_header tag chr_count buf =
     (case store 0 (desc_header tag chr_count) buf of
        Inl f \<Rightarrow> Inl f
      | Inr buf' \<Rightarrow> Inr (DESC_STR, buf'))"

text \<open>
  \<^verbatim>\<open>tud_descriptor_string_cb(index, langid)\<close>, with the scratch buffer passed in and
  returned. \<^verbatim>\<open>sizeof(string_desc_arr) / sizeof(string_desc_arr[0])\<close> is the length of the
  table and \<^verbatim>\<open>sizeof(_desc_str) / sizeof(_desc_str[0])\<close> the length of the buffer.
\<close>

definition tud_descriptor_string_cb ::
  "u8 \<Rightarrow> u16 list \<Rightarrow> u8 list option list \<Rightarrow> u8 \<Rightarrow> u16 \<Rightarrow> u16 list
     \<Rightarrow> fault + (desc_ptr \<times> u16 list)" where
  "tud_descriptor_string_cb tag serial string_desc_arr index langid desc_str =
     (if index = STRID_LANGID then
        (if string_desc_arr = [] then Inl OutOfBoundsRead
         else
           (case memcpy2 1 (string_desc_arr ! 0) desc_str of
              Inl f \<Rightarrow> Inl f
            | Inr buf \<Rightarrow> write_header tag 1 buf))
      else if index = STRID_SERIAL then
        (case board_usb_get_serial serial 1 32 desc_str of
           Inl f \<Rightarrow> Inl f
         | Inr (chr_count, buf) \<Rightarrow> write_header tag chr_count buf)
      else if \<not> (unat index < length string_desc_arr) then Inr (NULL, desc_str)
      else
        (case string_desc_arr ! unat index of
           None \<Rightarrow> Inl NullDeref
         | Some str \<Rightarrow>
             (case strlen str of
                None \<Rightarrow> Inl OutOfBoundsRead
              | Some n \<Rightarrow>
                  let max_count = length desc_str - 1;
                      chr_count = (if n > max_count then max_count else n)
                  in (case copy_loop str 0 chr_count desc_str of
                        Inl f \<Rightarrow> Inl f
                      | Inr buf \<Rightarrow> write_header tag chr_count buf))))"

text \<open>
  The code units the callback is to copy, in the words of the specification: the
  language code for index 0, the serial (at most 32 units) for the serial index, and
  otherwise the characters of the table string, truncated to the 32-unit capacity.
\<close>

definition string_payload :: "u16 list \<Rightarrow> u8 list option list \<Rightarrow> u8 \<Rightarrow> u16 list" where
  "string_payload serial table index =
     (if index = 0 then
        (case table ! 0 of Some (b0 # b1 # _) \<Rightarrow> [ucast b0 OR push_bit 8 (ucast b1)] | _ \<Rightarrow> [])
      else if index = 3 then take 32 serial
      else
        (case table ! unat index of
           Some str \<Rightarrow> map ucast (take 32 (takeWhile (\<lambda>b. b \<noteq> 0) str))
         | None \<Rightarrow> []))"

subsection \<open>The configuration descriptors\<close>

text \<open>
  Modelled from the spec: the macros \<^verbatim>\<open>TUD_CONFIG_DESC_LEN\<close>, \<^verbatim>\<open>U16_TO_U8S_LE\<close> and
  \<^verbatim>\<open>TUD_CONFIG_DESCRIPTOR\<close> of the USB stack, which the repository uses and does not
  define. The configuration header is "the fixed configuration header" in the "USB 2.0
  descriptor format": nine bytes, the length, the type (2), the total length as two
  bytes with the low byte first, the interface count, the configuration number, the
  string index, the attributes (bit 7 always set) and the power in units of 2 mA.
\<close>

definition TUD_CONFIG_DESC_LEN :: nat where
  "TUD_CONFIG_DESC_LEN = 9"

definition U16_TO_U8S_LE :: "nat \<Rightarrow> u8 list" where
  "U16_TO_U8S_LE n = [of_nat (n mod 256), of_nat (n div 256 mod 256)]"

definition TUD_CONFIG_DESCRIPTOR :: "nat \<Rightarrow> nat \<Rightarrow> nat \<Rightarrow> nat \<Rightarrow> u8 \<Rightarrow> nat \<Rightarrow> u8 list" where
  "TUD_CONFIG_DESCRIPTOR config_num itfcount stridx total_len attribute power_ma =
     [9, 2] @ U16_TO_U8S_LE total_len
       @ [of_nat itfcount, of_nat config_num, of_nat stridx, 0x80 OR attribute, of_nat (power_ma div 2)]"

text \<open>The total-length field of a configuration descriptor: bytes 2 and 3.\<close>

definition total_length_field :: "u8 list \<Rightarrow> nat" where
  "total_length_field d = unat (d ! 2) + 256 * unat (d ! 3)"

text \<open>
  The CDC device. \<^verbatim>\<open>TUD_CDC_DESC_LEN\<close> and the bytes \<^verbatim>\<open>TUD_CDC_DESCRIPTOR(...)\<close> expands
  to come from the USB stack and are the parameters \<open>cdc_desc_len\<close> and \<open>cdc_desc\<close>.
  \<^verbatim>\<open>ITF_NUM_TOTAL\<close> is 2 by the enumeration of the file.
\<close>

definition CONFIG_TOTAL_LEN_cdc :: "nat \<Rightarrow> nat" where
  "CONFIG_TOTAL_LEN_cdc cdc_desc_len = TUD_CONFIG_DESC_LEN + cdc_desc_len"

definition desc_configuration_cdc :: "nat \<Rightarrow> u8 list \<Rightarrow> u8 list" where
  "desc_configuration_cdc cdc_desc_len cdc_desc =
     TUD_CONFIG_DESCRIPTOR 1 2 0 (CONFIG_TOTAL_LEN_cdc cdc_desc_len) 0x80 100 @ cdc_desc"

text \<open>
  The audio device. \<^verbatim>\<open>CFG_TUD_AUDIO\<close>, \<^verbatim>\<open>ITF_NUM_TOTAL\<close>,
  \<^verbatim>\<open>TUD_AUDIO_HEADSET_STEREO_DESC_LEN\<close> and the bytes of
  \<^verbatim>\<open>TUD_AUDIO_HEADSET_STEREO_DESCRIPTOR(...)\<close> come from headers outside the sources and
  are parameters.
\<close>

definition CONFIG_TOTAL_LEN_audio :: "nat \<Rightarrow> nat \<Rightarrow> nat" where
  "CONFIG_TOTAL_LEN_audio cfg_tud_audio headset_desc_len =
     TUD_CONFIG_DESC_LEN + cfg_tud_audio * headset_desc_len"

definition desc_configuration_audio :: "nat \<Rightarrow> nat \<Rightarrow> nat \<Rightarrow> u8 list \<Rightarrow> u8 list" where
  "desc_configuration_audio cfg_tud_audio itf_num_total headset_desc_len headset_desc =
     TUD_CONFIG_DESCRIPTOR 1 itf_num_total 0
       (CONFIG_TOTAL_LEN_audio cfg_tud_audio headset_desc_len) 0x00 100 @ headset_desc"

text \<open>\<^verbatim>\<open>tud_descriptor_configuration_cb(index)\<close> returns the array whatever the index.\<close>

definition tud_descriptor_configuration_cb :: "u8 list \<Rightarrow> u8 \<Rightarrow> u8 list" where
  "tud_descriptor_configuration_cb desc_configuration index = desc_configuration"

section \<open>The pulse detector\<close>

lemmas det_simps = pulse_detector_def pio_step_def advance_def src_value_def apply_op_def write_dest_def

lemma pio_run_append: "pio_run p d (xs @ ys) s = pio_run p d ys (pio_run p d xs s)"
  by (induction xs arbitrary: s) simp_all

lemma step_delay: "0 < delay_left s \<Longrightarrow> pio_step p d i s = s\<lparr>delay_left := delay_left s - 1\<rparr>"
  by (simp add: pio_step_def)

lemma det_wait_stall:
  "pc s = 0 \<or> pc s = 2 \<Longrightarrow> delay_left s = 0 \<Longrightarrow> pio_run pulse_detector d (replicate n True) s = s"
  by (induction n) (auto simp: det_simps)

lemma det_wait1_stall:
  "pc s = 1 \<Longrightarrow> delay_left s = 0 \<Longrightarrow> pio_run pulse_detector d (replicate n False) s = s"
  by (induction n) (auto simp: det_simps)

lemma det_sync_low:
  assumes "pc s = 0" "delay_left s = 0"
  shows "pio_run pulse_detector d (replicate (3 + n) False) s = s\<lparr>pc := 1\<rparr>"
proof -
  have "pio_run pulse_detector d (replicate 3 False) s = s\<lparr>pc := 1\<rparr>"
    using assms by (simp add: det_simps numeral_3_eq_3)
  then show ?thesis
    using assms by (simp add: replicate_add pio_run_append det_wait1_stall)
qed

lemma det_sync_high:
  assumes "pc s = 1" "delay_left s = 0"
  shows "pio_run pulse_detector d (replicate (Suc n) True) s = s\<lparr>pc := 2\<rparr>"
proof -
  have "pio_step pulse_detector d True s = s\<lparr>pc := 2\<rparr>"
    using assms by (simp add: det_simps)
  then show ?thesis
    using assms by (simp add: det_wait_stall)
qed

lemma det_count_loop:
  "pc s = 4 \<Longrightarrow> delay_left s = 0 \<Longrightarrow> j \<le> unat (y s) \<Longrightarrow>
   pio_run pulse_detector d (replicate (2 * j) False) s = s\<lparr>y := y s - of_nat j\<rparr>"
proof (induction j arbitrary: s)
  case 0
  then show ?case by simp
next
  case (Suc j)
  from Suc.prems have nz: "y s \<noteq> 0" by (auto simp: unat_eq_0)
  have le: "j \<le> unat (y s - 1)"
    using Suc.prems nz by (simp add: unat_minus_one)
  have two: "pio_step pulse_detector d False (pio_step pulse_detector d False s) = s\<lparr>y := y s - 1\<rparr>"
    using Suc.prems nz by (simp add: det_simps)
  have "pio_run pulse_detector d (replicate (2 * Suc j) False) s
        = pio_run pulse_detector d (replicate (2 * j) False) (s\<lparr>y := y s - 1\<rparr>)"
    by (simp add: two)
  also have "\<dots> = s\<lparr>y := y s - 1\<rparr>\<lparr>y := y (s\<lparr>y := y s - 1\<rparr>) - of_nat j\<rparr>"
    using Suc.prems le by (intro Suc.IH) simp_all
  finally show ?case by (simp add: algebra_simps)
qed


lemma det_finish:
  assumes "pc s = 4" "delay_left s = 0" "length (rxf s) < d"
  shows "pio_run pulse_detector d (replicate (3 + n) True) s
         = s\<lparr>pc := 0, isr := 0, rxf := rxf s @ [NOT (y s)]\<rparr>"
proof -
  have "pio_run pulse_detector d (replicate 3 True) s
        = s\<lparr>pc := 0, isr := 0, rxf := rxf s @ [NOT (y s)]\<rparr>"
    using assms by (simp add: det_simps numeral_3_eq_3)
  then show ?thesis
    using assms by (simp add: replicate_add pio_run_append det_wait_stall)
qed

lemma det_start_count:
  assumes "pc s = 2" "delay_left s = 0"
  shows "pio_run pulse_detector d [False, i1, i2, i3] s = s\<lparr>pc := 4, y := - 1\<rparr>"
  using assms by (simp add: det_simps)

lemma not_minus_one_minus: "NOT (- 1 - w) = (w :: u32)"
  by (simp add: not_eq_complement)

lemma det_measure_long:
  assumes "pc s = 2" "delay_left s = 0" "length (rxf s) < d"
    and "(m + 1) div 2 < 2 ^ 32"
  shows "pio_run pulse_detector d (replicate (4 + m) False @ replicate (3 + m mod 2 + n) True) s
         = s\<lparr>pc := 0, y := - 1 - of_nat ((m + 1) div 2), isr := 0,
              rxf := rxf s @ [of_nat ((m + 1) div 2)]\<rparr>"
proof -
  let ?s4 = "s\<lparr>pc := 4, y := - 1\<rparr>"
  let ?e = "replicate (3 + m mod 2 + n) True"
  have "replicate (4 + m) False @ ?e = [False, False, False, False] @ (replicate m False @ ?e)"
    by (simp add: numeral_eq_Suc)
  then have start: "pio_run pulse_detector d (replicate (4 + m) False @ ?e) s
        = pio_run pulse_detector d (replicate m False @ ?e) ?s4"
    using det_start_count [OF assms(1,2)] by (simp only: pio_run_append)
  have umax: "unat (- 1 :: u32) = 2 ^ 32 - 1"
    by (simp add: unsigned_minus_1_eq_mask mask_eq_exp_minus_1)
  show ?thesis
  proof (cases "even m")
    case True
    then obtain j where m: "m = 2 * j" by (auto elim: evenE)
    with assms(4) have j: "j \<le> unat (y ?s4)" by (simp add: umax)
    have e: "?e = replicate (3 + n) True" using True by (simp add: m)
    have "pio_run pulse_detector d (replicate m False) ?s4 = ?s4\<lparr>y := - 1 - of_nat j\<rparr>"
      unfolding m using det_count_loop [of ?s4 j d] j assms(2) by simp
    moreover have "pio_run pulse_detector d (replicate (3 + n) True) (?s4\<lparr>y := - 1 - of_nat j\<rparr>)
        = ?s4\<lparr>y := - 1 - of_nat j\<rparr>\<lparr>pc := 0, isr := 0, rxf := rxf s @ [of_nat j]\<rparr>"
      using det_finish [of "?s4\<lparr>y := - 1 - of_nat j\<rparr>" d n] assms(2,3)
      by (simp add: not_minus_one_minus)
    ultimately show ?thesis
      unfolding e using start [unfolded e] m by (simp add: pio_run_append)
  next
    case False
    then obtain j where m: "m = 2 * j + 1" by (auto elim: oddE)
    with assms(4) have j: "Suc j \<le> unat (y ?s4)" by (simp add: umax)
    let ?sj = "?s4\<lparr>y := - 1 - of_nat j\<rparr>"
    have loop: "pio_run pulse_detector d (replicate (2 * j) False) ?s4 = ?sj"
      using det_count_loop [of ?s4 j d] j assms(2) by simp
    from j have jlt: "j < 2 ^ 32 - 1" by (simp add: umax)
    have "(of_nat j :: u32) \<noteq> - 1"
    proof
      assume "of_nat j = (- 1 :: u32)"
      then have "unat (- 1 :: u32) = j"
        using jlt by (intro of_nat_inverse) simp_all
      with jlt show False by (simp add: umax)
    qed
    then have nz: "(- 1 - of_nat j :: u32) \<noteq> 0"
      by auto
    have more: "pio_run pulse_detector d [False, True] ?sj = ?s4\<lparr>y := - 1 - of_nat (Suc j)\<rparr>"
      using assms(2) nz by (simp add: det_simps algebra_simps)
    have fin: "pio_run pulse_detector d (replicate (3 + n) True) (?s4\<lparr>y := - 1 - of_nat (Suc j)\<rparr>)
        = ?s4\<lparr>y := - 1 - of_nat (Suc j)\<rparr>\<lparr>pc := 0, isr := 0, rxf := rxf s @ [of_nat (Suc j)]\<rparr>"
      using det_finish [of "?s4\<lparr>y := - 1 - of_nat (Suc j)\<rparr>" d n] assms(2,3)
      by (simp add: not_minus_one_minus del: of_nat_Suc)
    have "replicate m False = replicate (2 * j) False @ [False]"
      unfolding m replicate_add by simp
    moreover have "m mod 2 = 1"
      using False by (simp add: odd_iff_mod_2_eq_one)
    then have "?e = True # replicate (3 + n) True"
      by (simp add: numeral_eq_Suc)
    ultimately have split: "replicate m False @ ?e
        = replicate (2 * j) False @ [False, True] @ replicate (3 + n) True"
      by (simp only: append_assoc append_Cons append_Nil)
    have k: "(m + 1) div 2 = Suc j" unfolding m by simp
    have "pio_run pulse_detector d (replicate (4 + m) False @ ?e) s
        = pio_run pulse_detector d
            (replicate (2 * j) False @ [False, True] @ replicate (3 + n) True) ?s4"
      by (simp only: start split)
    also have "\<dots> = pio_run pulse_detector d (replicate (3 + n) True)
        (pio_run pulse_detector d [False, True]
          (pio_run pulse_detector d (replicate (2 * j) False) ?s4))"
      by (simp only: pio_run_append)
    also have "\<dots> = ?s4\<lparr>y := - 1 - of_nat (Suc j)\<rparr>\<lparr>pc := 0, isr := 0,
        rxf := rxf s @ [of_nat (Suc j)]\<rparr>"
      by (simp only: loop more fin)
    finally show ?thesis
      unfolding k by simp
  qed
qed

lemma det_measure_short:
  assumes "pc s = 2" "delay_left s = 0" "length (rxf s) < d" "D = 1 \<or> D = 2 \<or> D = 3"
  shows "pio_run pulse_detector d (replicate D False @ replicate (7 - D + n) True) s
         = s\<lparr>pc := 0, y := - 1, isr := 0, rxf := rxf s @ [0]\<rparr>"
proof -
  let ?t = "s\<lparr>pc := 0, y := - 1, isr := 0, rxf := rxf s @ [0]\<rparr>"
  have b: "pio_run pulse_detector d (replicate D False @ replicate (7 - D) True) s = ?t"
    using assms by (auto simp: det_simps numeral_eq_Suc)
  have c: "replicate D False @ replicate (7 - D + n) True
      = (replicate D False @ replicate (7 - D) True) @ replicate n True"
    by (simp add: replicate_add)
  have "pio_run pulse_detector d (replicate D False @ replicate (7 - D + n) True) s
      = pio_run pulse_detector d (replicate n True) ?t"
    unfolding c by (simp only: pio_run_append [of _ _ "replicate D False @ replicate (7 - D) True"] b)
  also have "\<dots> = ?t"
    using assms(2) by (intro det_wait_stall) simp_all
  finally show ?thesis .
qed

lemma det_measure:
  assumes "pc s = 2" "delay_left s = 0" "length (rxf s) < d"
    and "1 \<le> D" "2 * ((D - 3) div 2) + 7 \<le> D + e" "(D - 3) div 2 < 2 ^ 32"
  shows "pio_run pulse_detector d (replicate D False @ replicate e True) s
         = s\<lparr>pc := 0, y := - 1 - of_nat ((D - 3) div 2), isr := 0,
              rxf := rxf s @ [of_nat ((D - 3) div 2)]\<rparr>"
proof (cases "D < 4")
  case True
  with assms(4) have D: "D = 1 \<or> D = 2 \<or> D = 3" by arith
  then have k: "(D - 3) div 2 = 0" by auto
  from assms(5) D obtain n where e: "e = 7 - D + n"
    unfolding k by (metis add.commute add_0 le_add_diff_inverse le_diff_conv mult_0_right)
  show ?thesis
    unfolding k e using det_measure_short [OF assms(1-3) D, of n] by simp
next
  case False
  then obtain m where D: "D = 4 + m" by (auto simp: not_less le_iff_add)
  have k: "(D - 3) div 2 = (m + 1) div 2" unfolding D by simp
  have "2 * ((m + 1) div 2) = m + m mod 2" by presburger
  with assms(5) have "3 + m mod 2 \<le> e" unfolding k D by simp
  then obtain n where e: "e = 3 + m mod 2 + n" by (auto simp: le_iff_add)
  show ?thesis
    unfolding k using det_measure_long [OF assms(1-3), of m n] assms(6) 
    by (simp add: k D e)
qed

lemma det_sync_short:
  assumes "pc s = 0" "delay_left s = 0"
  shows "pio_run pulse_detector d ([False, i1, i2, True] @ replicate n True) s = s\<lparr>pc := 2\<rparr>"
proof -
  have "pio_run pulse_detector d [False, i1, i2, True] s = s\<lparr>pc := 2\<rparr>"
    using assms by (simp add: det_simps)
  then show ?thesis
    using assms(2) by (simp only: pio_run_append) (simp add: det_wait_stall)
qed

lemma det_sync:
  assumes "pc s = 0" "delay_left s = 0" "1 \<le> b" "1 \<le> c" "4 \<le> b + c"
  shows "pio_run pulse_detector d (replicate b False @ replicate c True) s = s\<lparr>pc := 2\<rparr>"
proof -
  consider "b = 1" | "b = 2" | "3 \<le> b" using assms(3) by arith
  then show ?thesis
  proof cases
    case 1
    with assms(5) obtain n where c: "c = 3 + n" by (auto simp: le_iff_add)
    have "replicate b False @ replicate c True = [False, True, True, True] @ replicate n True"
      unfolding 1 c by (simp add: numeral_eq_Suc)
    then show ?thesis
      using det_sync_short [OF assms(1,2)] by simp
  next
    case 2
    with assms(5) obtain n where c: "c = 2 + n" by (auto simp: le_iff_add)
    have "replicate b False @ replicate c True = [False, False, True, True] @ replicate n True"
      unfolding 2 c by (simp add: numeral_eq_Suc)
    then show ?thesis
      using det_sync_short [OF assms(1,2)] by simp
  next
    case 3
    then obtain n where b: "b = 3 + n" by (auto simp: le_iff_add)
    from assms(4) obtain m where c: "c = Suc m" by (cases c) auto
    have 2: "pio_run pulse_detector d (replicate b False) s = s\<lparr>pc := 1\<rparr>"
      unfolding b using assms(1,2) by (rule det_sync_low)
    have 3: "pio_run pulse_detector d (replicate c True) (s\<lparr>pc := 1\<rparr>) = s\<lparr>pc := 2\<rparr>"
      unfolding c using det_sync_high [of "s\<lparr>pc := 1\<rparr>" d m] assms(2) by simp
    show ?thesis
      by (simp only: pio_run_append 2 3)
  qed
qed

text \<open>
  Claim C1, as the code has it. The detector starts at its first instruction with no
  delay pending and with room in the RX FIFO. The waveform is high for \<open>a\<close> cycles
  (\<open>a\<close> may be 0), low for \<open>b\<close>, high for \<open>c\<close>, then low for the pause of \<open>D\<close> cycles,
  and high for the remaining \<open>e\<close> cycles. The first low and the pulse before the pause
  last at least one cycle each and four cycles together, so that the detector is past
  the delay of its first \<^verbatim>\<open>wait\<close> when the pulse is there. The pause lasts at least one
  cycle and does not exhaust the counter, \<open>(D - 3) div 2 < 2 ^ 32\<close>. The closing high
  level lasts until the \<^verbatim>\<open>push\<close> has run, \<open>2 * ((D - 3) div 2) + 7 \<le> D + e\<close>: three
  cycles for an even \<open>D\<close> from 4 on, four for an odd \<open>D\<close> from 5 on, \<open>7 - D\<close> below
  that, and seven are always enough. Then the detector emits exactly one sample over
  the whole waveform, and the sample is \<open>(D - 3) div 2\<close>: the count loop takes two
  cycles for each count and starts four cycles after the falling edge. After the sample
  the detector is back at its first instruction.
\<close>

theorem pulse_detector_sample:
  assumes "pc s = 0" "delay_left s = 0" "length (rxf s) < depth"
    and "1 \<le> b" "1 \<le> c" "4 \<le> b + c" "1 \<le> D"
    and "2 * ((D - 3) div 2) + 7 \<le> D + e" "(D - 3) div 2 < 2 ^ 32"
  shows "pio_run pulse_detector depth
           (replicate a True @ replicate b False @ replicate c True
              @ replicate D False @ replicate e True) s
         = s\<lparr>pc := 0, y := - 1 - of_nat ((D - 3) div 2), isr := 0,
              rxf := rxf s @ [of_nat ((D - 3) div 2)]\<rparr>"
proof -
  have 1: "pio_run pulse_detector depth (replicate a True) s = s"
    using assms(1,2) by (simp add: det_wait_stall)
  have 2: "pio_run pulse_detector depth (replicate b False @ replicate c True) s = s\<lparr>pc := 2\<rparr>"
    using assms(1,2,4,5,6) by (rule det_sync)
  have 4: "pio_run pulse_detector depth (replicate D False @ replicate e True) (s\<lparr>pc := 2\<rparr>)
      = s\<lparr>pc := 2\<rparr>\<lparr>pc := 0, y := - 1 - of_nat ((D - 3) div 2), isr := 0,
              rxf := rxf (s\<lparr>pc := 2\<rparr>) @ [of_nat ((D - 3) div 2)]\<rparr>"
    using assms by (intro det_measure) simp_all
  have "pio_run pulse_detector depth
           (replicate a True @ (replicate b False @ replicate c True)
              @ (replicate D False @ replicate e True)) s
      = pio_run pulse_detector depth (replicate D False @ replicate e True) (s\<lparr>pc := 2\<rparr>)"
    by (simp only: pio_run_append [of _ _ "replicate a True"]
        pio_run_append [of _ _ "replicate b False @ replicate c True"] 1 2)
  then show ?thesis
    unfolding 4 by simp
qed

theorem pulse_detector_sample_witness:
  "pio_run pulse_detector 4
     (replicate 0 True @ replicate 2 False @ replicate 2 True
        @ replicate 10 False @ replicate 3 True) sm_reset
   = sm_reset\<lparr>y := - 4, rxf := [3]\<rparr>"
  using pulse_detector_sample [of sm_reset 4 2 2 10 3 0]
  by (simp add: sm_reset_def)

text \<open>
  When the counter is exhausted, \<^verbatim>\<open>jmp y--\<close> falls through with \<open>y\<close> wrapped to all
  ones, and the sample pushed is 0.
\<close>

lemma det_exhausted:
  assumes "pc s = 2" "delay_left s = 0" "length (rxf s) < d"
  shows "pio_run pulse_detector d (replicate (2 ^ 33 + 3) False @ [i1, i2, i3]) s
         = s\<lparr>pc := 0, y := - 1, isr := 0, rxf := rxf s @ [0]\<rparr>"
proof -
  let ?s4 = "s\<lparr>pc := 4, y := - 1\<rparr>"
  have umax: "unat (- 1 :: u32) = 2 ^ 32 - 1"
    by (simp add: unsigned_minus_1_eq_mask mask_eq_exp_minus_1)
  have "(2 ^ 33 + 3 :: nat) = 4 + (2 * (2 ^ 32 - 1) + 1)" by simp
  then have "replicate (2 ^ 33 + 3) False
      = replicate 4 False @ replicate (2 * (2 ^ 32 - 1)) False @ replicate 1 False"
    by (simp only: replicate_add)
  moreover have "replicate 4 False = [False, False, False, False]"
    by (simp add: numeral_eq_Suc)
  ultimately have split: "replicate (2 ^ 33 + 3) False @ [i1, i2, i3]
      = [False, False, False, False] @ replicate (2 * (2 ^ 32 - 1)) False @ [False, i1, i2, i3]"
    by (simp only: append_assoc replicate.simps One_nat_def append_Cons append_Nil)
  have loop: "pio_run pulse_detector d (replicate (2 * (2 ^ 32 - 1)) False) ?s4
      = ?s4\<lparr>y := - 1 - of_nat (2 ^ 32 - 1)\<rparr>"
    using det_count_loop [of ?s4 "2 ^ 32 - 1" d] assms(2) by (simp add: umax)
  have z: "(- 1 - of_nat (2 ^ 32 - 1) :: u32) = 0"
    by simp
  have fin: "pio_run pulse_detector d [False, i1, i2, i3] (?s4\<lparr>y := 0\<rparr>)
      = s\<lparr>pc := 0, y := - 1, isr := 0, rxf := rxf s @ [0]\<rparr>"
    using assms by (simp add: det_simps)
  show ?thesis
    by (simp only: split pio_run_append det_start_count [OF assms(1,2)] loop z fin)
qed

text \<open>
  Claim C1 as it is stated fails twice. The sample is not the pause in clock cycles: a
  pause of 10 cycles is reported as 3. And a pause that exhausts the counter is
  reported as 0, not as the maximum.
\<close>

theorem pulse_detector_sample_counterexample:
  "rxf (pio_run pulse_detector 4
     (replicate 1 True @ replicate 3 False @ replicate 1 True
        @ replicate 10 False @ replicate 7 True) sm_reset) = [3]
   \<and> (3 :: u32) \<noteq> 10
   \<and> rxf (pio_run pulse_detector 4
     (replicate 1 True @ replicate 3 False @ replicate 1 True
        @ replicate (2 ^ 33 + 3) False @ replicate 7 True) sm_reset) = [0]
   \<and> (0 :: u32) \<noteq> - 1"
proof -
  have short: "rxf (pio_run pulse_detector 4
     (replicate 1 True @ replicate 3 False @ replicate 1 True
        @ replicate 10 False @ replicate 7 True) sm_reset) = [3]"
    by code_simp
  let ?s2 = "sm_reset\<lparr>pc := 2\<rparr>"
  have sync: "pio_run pulse_detector 4 (replicate 1 True @ replicate 3 False @ replicate 1 True) sm_reset
      = ?s2"
    by code_simp
  have s2: "pc ?s2 = 2" "delay_left ?s2 = 0" "length (rxf ?s2) < 4"
    by (simp_all add: sm_reset_def)
  let ?s3 = "?s2\<lparr>pc := 0, y := - 1, isr := 0, rxf := rxf ?s2 @ [0]\<rparr>"
  have s3: "pc ?s3 = 0 \<or> pc ?s3 = 2" "delay_left ?s3 = 0"
    by (simp_all add: sm_reset_def)
  have tail: "replicate 7 True = [True, True, True] @ replicate 4 True"
    by (simp add: numeral_eq_Suc)
  have "pio_run pulse_detector 4
     ((replicate 1 True @ replicate 3 False @ replicate 1 True)
        @ (replicate (2 ^ 33 + 3) False @ [True, True, True]) @ replicate 4 True) sm_reset = ?s3"
    by (simp only: pio_run_append [of _ _ "replicate 1 True @ replicate 3 False @ replicate 1 True"]
        pio_run_append [of _ _ "replicate (2 ^ 33 + 3) False @ [True, True, True]"]
        sync det_exhausted [OF s2] det_wait_stall [OF s3])
  then have "rxf (pio_run pulse_detector 4
     (replicate 1 True @ replicate 3 False @ replicate 1 True
        @ replicate (2 ^ 33 + 3) False @ replicate 7 True) sm_reset) = [0]"
    unfolding tail by (simp add: sm_reset_def)
  with short show ?thesis by simp
qed

lemma det_push_stall:
  "pc s = 7 \<Longrightarrow> delay_left s = 0 \<Longrightarrow> depth \<le> length (rxf s) \<Longrightarrow>
   pio_run pulse_detector depth ins s = s"
  by (induction ins) (auto simp: det_simps)

text \<open>
  Claim C2 says that the detector never blocks, and drops the sample when the queue is
  full. The \<^verbatim>\<open>push\<close> of the program is a blocking one: with four samples in an RX FIFO
  of depth four, the detector measures the pause of 10 cycles and then stays at the
  \<^verbatim>\<open>push\<close>, holding the sample 3 in the ISR, whatever the input does afterwards.
\<close>

theorem pulse_detector_push_blocks:
  "pio_run pulse_detector 4
     (replicate 1 True @ replicate 3 False @ replicate 1 True
        @ replicate 10 False @ True # True # ins) (sm_reset\<lparr>rxf := [1, 2, 3, 4]\<rparr>)
   = sm_reset\<lparr>pc := 7, y := - 4, isr := 3, rxf := [1, 2, 3, 4]\<rparr>"
proof -
  have "pio_run pulse_detector 4
     (replicate 1 True @ replicate 3 False @ replicate 1 True
        @ replicate 10 False @ [True, True]) (sm_reset\<lparr>rxf := [1, 2, 3, 4]\<rparr>)
     = sm_reset\<lparr>pc := 7, y := - 4, isr := 3, rxf := [1, 2, 3, 4]\<rparr>"
    by code_simp
  then have "pio_run pulse_detector 4
     ((replicate 1 True @ replicate 3 False @ replicate 1 True
        @ replicate 10 False @ [True, True]) @ ins) (sm_reset\<lparr>rxf := [1, 2, 3, 4]\<rparr>)
     = sm_reset\<lparr>pc := 7, y := - 4, isr := 3, rxf := [1, 2, 3, 4]\<rparr>"
    unfolding pio_run_append by (simp add: det_push_stall sm_reset_def)
  then show ?thesis by simp
qed

section \<open>The pulse generator\<close>

lemmas gen_simps = pulse_generator_def NOP_def Let_def pio_step_def advance_def src_value_def apply_op_def write_dest_def

lemma pio_trace_append:
  "pio_trace obs p d (xs @ ys) s
     = pio_trace obs p d xs s @ pio_trace obs p d ys (pio_run p d xs s)"
  by (induction xs arbitrary: s) simp_all

lemma pc_cases8:
  assumes "pc s < 8"
  obtains "pc s = 0" | "pc s = 1" | "pc s = 2" | "pc s = 3"
    | "pc s = 4" | "pc s = 5" | "pc s = 6" | "pc s = 7"
  using assms by (auto simp: numeral_eq_Suc less_Suc_eq)

lemma gen_pc_bound: "pc s < 8 \<Longrightarrow> pc (pio_step pulse_generator d i s) < 8"
  by (erule pc_cases8) (auto simp: gen_simps split: list.splits)

lemma gen_step_input: "pc s < 8 \<Longrightarrow> pio_step pulse_generator d i s = pio_step pulse_generator d i' s"
  by (erule pc_cases8) (auto simp: gen_simps split: list.splits)

lemma gen_run_input:
  "pc s < 8 \<Longrightarrow> pio_run pulse_generator d ins s
     = pio_run pulse_generator d (replicate (length ins) False) s"
proof (induction ins arbitrary: s)
  case Nil
  then show ?case by simp
next
  case (Cons i ins)
  have "pc (pio_step pulse_generator d False s) < 8"
    using Cons.prems by (rule gen_pc_bound)
  then show ?case
    using Cons.IH [of "pio_step pulse_generator d False s"] gen_step_input [OF Cons.prems, of d i False]
    by simp
qed

lemma gen_trace_input:
  "pc s < 8 \<Longrightarrow> pio_trace obs pulse_generator d ins s
     = pio_trace obs pulse_generator d (replicate (length ins) False) s"
proof (induction ins arbitrary: s)
  case Nil
  then show ?case by simp
next
  case (Cons i ins)
  have "pc (pio_step pulse_generator d False s) < 8"
    using Cons.prems by (rule gen_pc_bound)
  then show ?case
    using Cons.IH [of "pio_step pulse_generator d False s"] gen_step_input [OF Cons.prems, of d i False]
    by simp
qed

lemma gen_pull_stall_step:
  "pc s = 0 \<Longrightarrow> delay_left s = 0 \<Longrightarrow> txf s = [] \<Longrightarrow>
   pio_step pulse_generator d i s = s\<lparr>side_pin := False\<rparr>"
  by (simp add: gen_simps)

lemma gen_pull_stall:
  "pc s = 0 \<Longrightarrow> delay_left s = 0 \<Longrightarrow> txf s = [] \<Longrightarrow>
   pio_run pulse_generator d ins s = (if ins = [] then s else s\<lparr>side_pin := False\<rparr>)
   \<and> pio_trace side_pin pulse_generator d ins s = replicate (length ins) False
   \<and> pio_trace set_pin pulse_generator d ins s = replicate (length ins) (set_pin s)"
proof (induction ins arbitrary: s)
  case Nil
  then show ?case by simp
next
  case (Cons i ins)
  let ?t = "s\<lparr>side_pin := False\<rparr>"
  have "pio_run pulse_generator d ins ?t = (if ins = [] then ?t else ?t\<lparr>side_pin := False\<rparr>)
   \<and> pio_trace side_pin pulse_generator d ins ?t = replicate (length ins) False
   \<and> pio_trace set_pin pulse_generator d ins ?t = replicate (length ins) (set_pin ?t)"
    using Cons.prems by (intro Cons.IH) simp_all
  then show ?case
    using Cons.prems by (simp add: gen_pull_stall_step)
qed

lemma gen_pause_loop:
  "pc s = 4 \<Longrightarrow> delay_left s = 0 \<Longrightarrow> \<not> side_pin s \<Longrightarrow> \<not> set_pin s \<Longrightarrow> j \<le> unat (x s) \<Longrightarrow>
   pio_run pulse_generator d (replicate (2 * j) False) s = s\<lparr>x := x s - of_nat j\<rparr>
   \<and> pio_trace side_pin pulse_generator d (replicate (2 * j) False) s = replicate (2 * j) False
   \<and> pio_trace set_pin pulse_generator d (replicate (2 * j) False) s = replicate (2 * j) False"
proof (induction j arbitrary: s)
  case 0
  then show ?case by simp
next
  case (Suc j)
  let ?t = "s\<lparr>x := x s - 1\<rparr>"
  from Suc.prems have nz: "x s \<noteq> 0" by (auto simp: unat_eq_0)
  have le: "j \<le> unat (x s - 1)"
    using Suc.prems nz by (simp add: unat_minus_one)
  have one: "pio_step pulse_generator d False s = s\<lparr>pc := 5\<rparr>"
    using Suc.prems by (simp add: gen_simps)
  have two: "pio_step pulse_generator d False (s\<lparr>pc := 5\<rparr>) = ?t"
    using Suc.prems nz by (simp add: gen_simps)
  have ih: "pio_run pulse_generator d (replicate (2 * j) False) ?t = ?t\<lparr>x := x ?t - of_nat j\<rparr>
      \<and> pio_trace side_pin pulse_generator d (replicate (2 * j) False) ?t = replicate (2 * j) False
      \<and> pio_trace set_pin pulse_generator d (replicate (2 * j) False) ?t = replicate (2 * j) False"
    using Suc.prems le by (intro Suc.IH) simp_all
  show ?case
    using ih Suc.prems(3,4) by (simp add: one two algebra_simps)
qed

lemma gen_head:
  assumes "pc s = 0" "delay_left s = 0" "txf s = N # q"
  shows "pio_run pulse_generator d (replicate 4 False) s
           = s\<lparr>pc := 4, x := N, osr := N, set_pin := False, side_pin := False, txf := q\<rparr>
    \<and> pio_trace side_pin pulse_generator d (replicate 4 False) s = [False, False, True, False]
    \<and> pio_trace set_pin pulse_generator d (replicate 4 False) s = [set_pin s, set_pin s, True, False]"
  using assms by (simp add: gen_simps numeral_eq_Suc)

lemma gen_tail:
  assumes "pc s = 4" "delay_left s = 0" "x s = 0"
  shows "pio_run pulse_generator d (replicate 4 False) s
           = s\<lparr>pc := 0, x := - 1, set_pin := False, side_pin := False\<rparr>
    \<and> pio_trace side_pin pulse_generator d (replicate 4 False) s = [False, False, True, False]
    \<and> pio_trace set_pin pulse_generator d (replicate 4 False) s = [set_pin s, set_pin s, True, False]"
  using assms by (simp add: gen_simps numeral_eq_Suc)

lemma rising_edges_low: "rising_edges b (replicate n False @ bs) = rising_edges (b \<and> n = 0) bs"
  by (induction n arbitrary: b) auto

lemma gen_cycle:
  assumes "pc s = 0" "delay_left s = 0" "txf s = N # q" "length ins = 2 * unat N + 8"
  shows "pio_run pulse_generator d ins s
           = s\<lparr>pc := 0, x := - 1, osr := N, set_pin := False, side_pin := False, txf := q\<rparr>
    \<and> pio_trace side_pin pulse_generator d ins s
           = [False, False, True] @ replicate (2 * unat N + 3) False @ [True, False]
    \<and> pio_trace set_pin pulse_generator d ins s
           = [set_pin s, set_pin s, True] @ replicate (2 * unat N + 3) False @ [True, False]"
proof -
  let ?h = "replicate 4 False" and ?l = "replicate (2 * unat N) False"
  let ?s1 = "s\<lparr>pc := 4, x := N, osr := N, set_pin := False, side_pin := False, txf := q\<rparr>"
  let ?s2 = "?s1\<lparr>x := 0\<rparr>"
  have "2 * unat N + 8 = 4 + (2 * unat N + 4)"
    by simp
  then have ins: "replicate (length ins) False = ?h @ ?l @ ?h"
    unfolding assms(4) by (simp only: replicate_add)
  have pc8: "pc s < 8" using assms(1) by simp
  note h = gen_head [OF assms(1-3), of d]
  have l: "pio_run pulse_generator d ?l ?s1 = ?s2
      \<and> pio_trace side_pin pulse_generator d ?l ?s1 = ?l
      \<and> pio_trace set_pin pulse_generator d ?l ?s1 = ?l"
    using gen_pause_loop [of ?s1 "unat N" d] assms(2) by simp
  have t: "pio_run pulse_generator d ?h ?s2
           = ?s2\<lparr>pc := 0, x := - 1, set_pin := False, side_pin := False\<rparr>
    \<and> pio_trace side_pin pulse_generator d ?h ?s2 = [False, False, True, False]
    \<and> pio_trace set_pin pulse_generator d ?h ?s2 = [set_pin ?s2, set_pin ?s2, True, False]"
    using assms(2) by (intro gen_tail) simp_all
  have "2 * unat N + 3 = 1 + (2 * unat N + 2)"
    by simp
  then have "replicate (2 * unat N + 3) False = replicate 1 False @ ?l @ replicate 2 False"
    by (simp only: replicate_add)
  moreover have "replicate 1 False = [False]" "replicate 2 False = [False, False]"
    by (simp_all add: numeral_2_eq_2)
  ultimately have mid: "replicate (2 * unat N + 3) False = False # ?l @ [False, False]"
    by (simp only: append_Cons append_Nil)
  have run: "pio_run pulse_generator d (?h @ ?l @ ?h) s
           = s\<lparr>pc := 0, x := - 1, osr := N, set_pin := False, side_pin := False, txf := q\<rparr>"
    by (simp only: pio_run_append h l t) simp
  have tr1: "pio_trace side_pin pulse_generator d (?h @ ?l @ ?h) s
           = [False, False, True, False] @ ?l @ [False, False, True, False]"
    by (simp only: pio_trace_append pio_run_append h l t)
  have tr2: "pio_trace set_pin pulse_generator d (?h @ ?l @ ?h) s
           = [set_pin s, set_pin s, True, False] @ ?l @ [False, False, True, False]"
    by (simp only: pio_trace_append pio_run_append h l t) simp
  have shape: "\<And>a b. [a, b, True, False] @ ?l @ [False, False, True, False]
      = [a, b, True] @ replicate (2 * unat N + 3) False @ [True, False]"
    by (simp add: mid)
  show ?thesis
    unfolding gen_run_input [OF pc8, of d ins] gen_trace_input [OF pc8, of _ d ins] ins
    using run tr1 tr2 by (simp only: shape)
qed


text \<open>
  Claim C7. The generator waits at its \<^verbatim>\<open>pull\<close> with an empty command queue: over any
  number of cycles \<open>waits\<close> it stays there and holds the pin low. Once the command \<open>N\<close> is
  in the queue, the next \<open>2 * N + 8\<close> cycles, whatever the input, drive the side-set pin
  low for two cycles, high for one, low for \<open>2 * N + 3\<close> cycles, high for one and low
  again: two rising edges around a low period of \<open>2 * N + 3\<close> cycles, 3 cycles for
  \<open>N = 0\<close>. The pin of the \<^verbatim>\<open>set\<close> group follows the same levels from the first
  \<^verbatim>\<open>set\<close> on. The generator is then at its \<^verbatim>\<open>pull\<close> again with the queue empty, as it
  started, and no step leaves the eight instructions of the program.
\<close>

theorem pulse_generator_cycle:
  assumes "pc s = 0" "delay_left s = 0" "txf s = []" "length ins = 2 * unat N + 8"
  shows "pio_run pulse_generator d waits s = (if waits = [] then s else s\<lparr>side_pin := False\<rparr>)
    \<and> pio_trace side_pin pulse_generator d waits s = replicate (length waits) False
    \<and> pio_trace side_pin pulse_generator d ins ((pio_run pulse_generator d waits s)\<lparr>txf := [N]\<rparr>)
        = [False, False, True] @ replicate (2 * unat N + 3) False @ [True, False]
    \<and> rising_edges False
          (pio_trace side_pin pulse_generator d ins ((pio_run pulse_generator d waits s)\<lparr>txf := [N]\<rparr>))
        = 2
    \<and> pio_trace set_pin pulse_generator d ins ((pio_run pulse_generator d waits s)\<lparr>txf := [N]\<rparr>)
        = [set_pin s, set_pin s, True] @ replicate (2 * unat N + 3) False @ [True, False]
    \<and> pio_run pulse_generator d ins ((pio_run pulse_generator d waits s)\<lparr>txf := [N]\<rparr>)
        = s\<lparr>pc := 0, x := - 1, osr := N, set_pin := False, side_pin := False, txf := []\<rparr>
    \<and> (\<forall>t i. pc t < 8 \<longrightarrow> pc (pio_step pulse_generator d i t) < 8)"
proof -
  let ?w = "pio_run pulse_generator d waits s"
  note stall = gen_pull_stall [OF assms(1-3), of d waits]
  have w: "pc (?w\<lparr>txf := [N]\<rparr>) = 0" "delay_left (?w\<lparr>txf := [N]\<rparr>) = 0"
    "txf (?w\<lparr>txf := [N]\<rparr>) = N # []" "set_pin (?w\<lparr>txf := [N]\<rparr>) = set_pin s"
    using stall assms(1,2) by (simp_all split: if_splits)
  note cyc = gen_cycle [OF w(1-3) assms(4), of d]
  have fin: "?w\<lparr>txf := [N]\<rparr>\<lparr>pc := 0, x := - 1, osr := N, set_pin := False,
        side_pin := False, txf := []\<rparr>
      = s\<lparr>pc := 0, x := - 1, osr := N, set_pin := False, side_pin := False, txf := []\<rparr>"
    using stall by (simp split: if_splits)
  have edges: "rising_edges False ([False, False, True] @ replicate (2 * unat N + 3) False @ [True, False]) = 2"
    by (simp add: rising_edges_low)
  show ?thesis
    using stall cyc gen_pc_bound [of _ d] unfolding w(4) fin
    by (simp only: edges) simp
qed

theorem pulse_generator_cycle_witness:
  "pio_run pulse_generator 4 [False, True] sm_reset = sm_reset
    \<and> pio_trace side_pin pulse_generator 4 [False, True] sm_reset = [False, False]
    \<and> pio_trace side_pin pulse_generator 4 (replicate 14 False)
          ((pio_run pulse_generator 4 [False, True] sm_reset)\<lparr>txf := [3]\<rparr>)
        = [False, False, True] @ replicate 9 False @ [True, False]
    \<and> rising_edges False (pio_trace side_pin pulse_generator 4 (replicate 14 False)
          ((pio_run pulse_generator 4 [False, True] sm_reset)\<lparr>txf := [3]\<rparr>)) = 2
    \<and> pio_run pulse_generator 4 (replicate 14 False)
          ((pio_run pulse_generator 4 [False, True] sm_reset)\<lparr>txf := [3]\<rparr>)
        = sm_reset\<lparr>x := - 1, osr := 3\<rparr>
    \<and> pc (pio_step pulse_generator 4 False (sm_reset\<lparr>pc := 7\<rparr>)) < 8"
proof -
  have h: "pc sm_reset = 0" "delay_left sm_reset = 0" "txf sm_reset = []"
    "length (replicate 14 False) = 2 * unat (3 :: u32) + 8"
    by (simp_all add: sm_reset_def)
  have r: "sm_reset\<lparr>side_pin := False\<rparr> = sm_reset"
    "sm_reset\<lparr>pc := 0, x := - 1, osr := 3, set_pin := False, side_pin := False, txf := []\<rparr>
       = sm_reset\<lparr>x := - 1, osr := 3\<rparr>"
    "pc (sm_reset\<lparr>pc := 7\<rparr>) < 8" "2 * unat (3 :: u32) + 3 = 9"
    by (simp_all add: sm_reset_def)
  show ?thesis
    using pulse_generator_cycle [OF h, of 4 "[False, True]"]
    by (elim conjE) (simp add: r del: pio_run.simps pio_trace.simps)
qed

section \<open>The string descriptor callback\<close>

lemma store_ok: "i < length buf \<Longrightarrow> store i v buf = Inr (buf[i := v])"
  by (simp add: store_def)

lemma copy_loop_ok:
  "i \<le> n \<Longrightarrow> n \<le> length str \<Longrightarrow> n < length buf \<Longrightarrow>
   copy_loop str i n buf
     = Inr (take (Suc i) buf @ map ucast (take (n - i) (drop i str)) @ drop (Suc n) buf)"
proof (induction str i n buf rule: copy_loop.induct)
  case (1 str i n buf)
  show ?case
  proof (cases "i < n")
    case False
    with "1.prems" have "i = n" by simp
    then show ?thesis by (simp add: copy_loop.simps [of str n n buf])
  next
    case True
    let ?v = "ucast (str ! i) :: u16"
    let ?b = "buf[Suc i := ?v]"
    have i: "i < length str" "Suc i < length buf" using True "1.prems" by simp_all
    have st: "store (1 + i) ?v buf = Inr ?b" using i by (simp add: store_ok)
    have ih: "copy_loop str (i + 1) n ?b
        = Inr (take (Suc (i + 1)) ?b @ map ucast (take (n - (i + 1)) (drop (i + 1) str)) @ drop (Suc n) ?b)"
      using True i "1.prems" st by (intro "1.IH") simp_all
    have a: "take (Suc (Suc i)) ?b = take (Suc i) buf @ [?v]"
      using i by (simp add: take_Suc_conv_app_nth [of "Suc i"])
    have b: "drop (Suc n) ?b = drop (Suc n) buf"
      using True by simp
    have c: "take (n - i) (drop i str) = str ! i # take (n - Suc i) (drop (Suc i) str)"
      using True i by (simp add: Cons_nth_drop_Suc [symmetric] Suc_diff_Suc [symmetric] del: Suc_diff_Suc)
    show ?thesis
      using True i st ih by (simp add: copy_loop.simps [of str i n buf] a b c)
  qed
qed

lemma store_units_ok:
  "i + length vs \<le> length buf \<Longrightarrow>
   store_units i vs buf = Inr (take i buf @ vs @ drop (i + length vs) buf)"
proof (induction vs arbitrary: i buf)
  case Nil
  then show ?case by simp
next
  case (Cons v vs)
  have "store_units (i + 1) vs (buf[i := v])
      = Inr (take (i + 1) (buf[i := v]) @ vs @ drop (i + 1 + length vs) (buf[i := v]))"
    using Cons.prems by (intro Cons.IH) simp
  moreover have "take (i + 1) (buf[i := v]) = take i buf @ [v]"
    using Cons.prems by (simp add: take_Suc_conv_app_nth)
  ultimately show ?case
    using Cons.prems by (simp add: store_ok)
qed

lemma strlen_Some:
  "strlen bs = Some n \<Longrightarrow> n < length bs \<and> take n bs = takeWhile (\<lambda>b. b \<noteq> 0) bs"
  by (induction bs arbitrary: n) (auto split: if_splits)

lemma hi_byte_shifted: "ucast (drop_bit 8 (push_bit 8 (ucast tag) :: u16)) = (tag :: u8)"
  by (rule bit_word_eqI) (auto simp: bit_simps)

lemma lo_byte_shifted: "(ucast (push_bit 8 (ucast (tag :: u8)) OR l :: u16) :: u8) = ucast l"
  by (rule bit_word_eqI) (auto simp: bit_simps)

lemma desc_header_bytes:
  assumes "n \<le> 32"
  shows "hi_byte (desc_header tag n) = tag" and "unat (lo_byte (desc_header tag n)) = 2 * n + 2"
proof -
  define l :: u16 where "l = of_nat (2 * n + 2)"
  have ul: "unat l = 2 * n + 2"
    unfolding l_def using assms by (simp only: unat_of_nat) simp
  then have "l < 256"
    using assms by (simp add: word_less_nat_alt)
  then have "l div 256 = 0"
    by (rule div_word_less)
  then have d: "drop_bit 8 l = 0"
    by (simp add: drop_bit_eq_div)
  have h: "desc_header tag n = push_bit 8 (ucast tag) OR l"
    by (simp only: desc_header_def l_def)
  show "hi_byte (desc_header tag n) = tag"
    unfolding h hi_byte_def by (simp add: drop_bit_or d hi_byte_shifted del: drop_bit_push_bit)
  have "unat (ucast l :: u8) = unat l"
    using ul assms by (simp add: unsigned_ucast_eq take_bit_nat_eq_self)
  then show "unat (lo_byte (desc_header tag n)) = 2 * n + 2"
    unfolding h lo_byte_def lo_byte_shifted ul .
qed


lemma write_header_ok:
  "write_header tag n (b # bs) = Inr (DESC_STR, desc_header tag n # bs)"
  by (simp add: write_header_def store_def)

lemma buf_split:
  assumes "length buf = 33"
  obtains b bs where "buf = b # bs" "length bs = 32"
  using assms by (cases buf) auto

lemma cb_langid:
  assumes "length buf = 33" "table \<noteq> []" "table ! 0 = Some (b0 # b1 # rest)"
  shows "tud_descriptor_string_cb tag serial table 0 langid buf
         = Inr (DESC_STR, desc_header tag 1 # (ucast b0 OR push_bit 8 (ucast b1)) # drop 2 buf)"
proof -
  from assms(1) obtain b bs where buf: "buf = b # bs" "length bs = 32" by (rule buf_split)
  then obtain c cs where bs: "bs = c # cs" by (cases bs) auto
  show ?thesis
    using assms(2,3) unfolding buf bs
    by (simp add: tud_descriptor_string_cb_def STRID_LANGID_def memcpy2_def store_def write_header_ok)
qed

lemma cb_serial:
  assumes "length buf = 33"
  shows "tud_descriptor_string_cb tag serial table 3 langid buf
         = Inr (DESC_STR, desc_header tag (length (take 32 serial)) # take 32 serial
                  @ drop (Suc (length (take 32 serial))) buf)"
proof -
  from assms(1) obtain b bs where buf: "buf = b # bs" "length bs = 32" by (rule buf_split)
  have "store_units 1 (take 32 serial) buf
      = Inr (take 1 buf @ take 32 serial @ drop (1 + length (take 32 serial)) buf)"
    using assms by (intro store_units_ok) simp
  then show ?thesis
    unfolding buf
    by (simp add: tud_descriptor_string_cb_def STRID_LANGID_def STRID_SERIAL_def
        board_usb_get_serial_def write_header_ok)
qed

lemma cb_default:
  assumes "length buf = 33" "index \<noteq> 0" "index \<noteq> 3" "unat index < length table"
    and "table ! unat index = Some str" "strlen str = Some n"
  shows "tud_descriptor_string_cb tag serial table index langid buf
         = Inr (DESC_STR, desc_header tag (min n 32) # map ucast (take (min n 32) str)
                  @ drop (Suc (min n 32)) buf)"
proof -
  from assms(1) obtain b bs where buf: "buf = b # bs" "length bs = 32" by (rule buf_split)
  from assms(6) have n: "n < length str" by (simp add: strlen_Some)
  have "copy_loop str 0 (min n 32) buf
      = Inr (take (Suc 0) buf @ map ucast (take (min n 32 - 0) (drop 0 str)) @ drop (Suc (min n 32)) buf)"
    using assms(1) n by (intro copy_loop_ok) simp_all
  then have cl: "copy_loop str 0 (min n 32) (b # bs)
      = Inr (b # map ucast (take (min n 32) str) @ drop (min n 32) bs)"
    unfolding buf by simp
  have m: "(if 32 < n then 32 else n) = min n 32" by simp
  show ?thesis
    using assms(2-6) unfolding buf
    by (simp add: tud_descriptor_string_cb_def STRID_LANGID_def STRID_SERIAL_def
        buf(2) m cl write_header_ok Let_def
        del: min.absorb1 min.absorb2 min.absorb3 min.absorb4)
qed


lemma cb_result:
  assumes "length buf = 33"
    and "tud_descriptor_string_cb tag serial table index langid buf = Inr (DESC_STR, buf')"
  shows "buf' = desc_header tag (length (string_payload serial table index))
            # string_payload serial table index
            @ drop (Suc (length (string_payload serial table index))) buf
         \<and> length (string_payload serial table index) \<le> 32"
proof -
  consider "index = 0" | "index = 3" | "index \<noteq> 0" "index \<noteq> 3" by blast
  then show ?thesis
  proof cases
    case 1
    from assms(2) obtain b0 b1 rest where t: "table \<noteq> []" "table ! 0 = Some (b0 # b1 # rest)"
      unfolding 1
      by (auto simp: tud_descriptor_string_cb_def STRID_LANGID_def memcpy2_def
          split: if_splits option.splits list.splits sum.splits)
    show ?thesis
      using assms(2) cb_langid [OF assms(1) t, of tag serial langid]
      by (simp add: 1 string_payload_def t numeral_2_eq_2)
  next
    case 2
    show ?thesis
      using assms(2) cb_serial [OF assms(1), of tag serial table langid]
      by (simp add: 2 string_payload_def)
  next
    case 3
    from assms(2) 3 obtain str n where t: "unat index < length table"
        "table ! unat index = Some str" "strlen str = Some n"
      by (auto simp: tud_descriptor_string_cb_def STRID_LANGID_def STRID_SERIAL_def
          split: if_splits option.splits)
    have "take (min n 32) str = take 32 (take n str)"
      by (metis take_take min.commute)
    also have "\<dots> = take 32 (takeWhile (\<lambda>b. b \<noteq> 0) str)"
      using strlen_Some [OF t(3)] by simp
    finally have "map ucast (take (min n 32) str) = string_payload serial table index"
      using 3 t by (simp add: string_payload_def)
    moreover have "length (map (ucast :: u8 \<Rightarrow> u16) (take (min n 32) str)) = min n 32"
      using strlen_Some [OF t(3)] by auto
    ultimately show ?thesis
      using assms(2) cb_default [OF assms(1) 3 t, of tag serial langid]
      by (auto simp del: min.absorb1 min.absorb2 min.absorb3 min.absorb4)
  qed
qed

text \<open>
  Claim C3. Whenever the callback returns the buffer, the buffer holds the header, then
  the copied code units, then what it held before. The high byte of the header is the
  string-descriptor type tag, its low byte is twice the number of copied code units
  plus two, and that is the byte count of header and payload together.
\<close>

theorem string_descriptor_header:
  assumes "length buf = 33"
    and "tud_descriptor_string_cb tag serial table index langid buf = Inr (DESC_STR, buf')"
  shows "buf' = hd buf' # string_payload serial table index
            @ drop (Suc (length (string_payload serial table index))) buf
    \<and> length (string_payload serial table index) \<le> 32
    \<and> hi_byte (hd buf') = tag
    \<and> unat (lo_byte (hd buf')) = 2 * length (string_payload serial table index) + 2
    \<and> unat (lo_byte (hd buf')) = 2 * length (hd buf' # string_payload serial table index)"
proof -
  let ?p = "string_payload serial table index"
  from cb_result [OF assms] have b: "buf' = desc_header tag (length ?p) # ?p @ drop (Suc (length ?p)) buf"
    and l: "length ?p \<le> 32" by simp_all
  from b have h: "hd buf' = desc_header tag (length ?p)"
    by (metis list.sel(1))
  show ?thesis
    unfolding h using b l desc_header_bytes [OF l, of tag] by simp
qed

theorem string_descriptor_header_witness:
  "tud_descriptor_string_cb 3 [] string_desc_arr_audio 2 0x0409 (replicate 33 0)
     = Inr (DESC_STR, 0x0322 # map (\<lambda>c. of_nat (of_char c)) ''Laser Sound Card'' @ replicate 16 0)
   \<and> string_payload [] string_desc_arr_audio 2 = map (\<lambda>c. of_nat (of_char c)) ''Laser Sound Card''
   \<and> hi_byte 0x0322 = 3 \<and> unat (lo_byte 0x0322) = 34"
proof -
  have r: "tud_descriptor_string_cb 3 [] string_desc_arr_audio 2 0x0409 (replicate 33 0)
     = Inr (DESC_STR, 0x0322 # map (\<lambda>c. of_nat (of_char c)) ''Laser Sound Card'' @ replicate 16 0)"
    by code_simp
  have p: "string_payload [] string_desc_arr_audio 2 = map (\<lambda>c. of_nat (of_char c)) ''Laser Sound Card''"
    by code_simp
  show ?thesis
    using string_descriptor_header [OF _ r] unfolding p by (simp add: r)
qed

lemmas cb_simps = tud_descriptor_string_cb_def STRID_LANGID_def STRID_SERIAL_def

text \<open>
  Claim C4. For both devices, an index at or beyond the size of the string table makes
  the callback return \<^verbatim>\<open>NULL\<close>; it does not fault.
\<close>

theorem string_descriptor_out_of_range:
  assumes "table = string_desc_arr_audio \<or> table = string_desc_arr_cdc"
    and "length table \<le> unat index"
  shows "tud_descriptor_string_cb tag serial table index langid buf = Inr (NULL, buf)"
proof -
  from assms(1) have len: "length table = 6"
    by (auto simp: string_desc_arr_audio_def string_desc_arr_cdc_def)
  with assms(2) have "index \<noteq> 0" "index \<noteq> 3" by auto
  then show ?thesis
    using assms(2) by (simp add: cb_simps)
qed

theorem string_descriptor_out_of_range_witness:
  "tud_descriptor_string_cb 3 [] string_desc_arr_audio 6 0x0409 (replicate 33 0) = Inr (NULL, replicate 33 0)
   \<and> tud_descriptor_string_cb 3 [] string_desc_arr_cdc 0xEE 0x0409 (replicate 33 0) = Inr (NULL, replicate 33 0)"
  using string_descriptor_out_of_range [of string_desc_arr_audio 6 3 "[]" "0x0409" "replicate 33 0"]
    string_descriptor_out_of_range [of string_desc_arr_cdc "0xEE" 3 "[]" "0x0409" "replicate 33 0"]
  by (simp add: string_desc_arr_audio_def string_desc_arr_cdc_def)

lemma cb_null:
  assumes "tud_descriptor_string_cb tag serial table index langid buf = Inr (NULL, buf')"
  shows "buf' = buf \<and> index \<noteq> 0 \<and> index \<noteq> 3 \<and> length table \<le> unat index"
  using assms
  by (auto simp: cb_simps write_header_def board_usb_get_serial_def Let_def
      split: if_splits option.splits sum.splits prod.splits)

text \<open>
  Claim C10. A call that returns \<^verbatim>\<open>NULL\<close> leaves the scratch buffer, its header slot
  included, as it was; and \<^verbatim>\<open>NULL\<close> is returned only for an index that is neither the
  language nor the serial slot and is out of the range of the table.
\<close>

theorem string_descriptor_null_atomic:
  assumes "tud_descriptor_string_cb tag serial table index langid buf = Inr (NULL, buf')"
  shows "buf' = buf \<and> index \<noteq> STRID_LANGID \<and> index \<noteq> STRID_SERIAL \<and> length table \<le> unat index"
  using cb_null [OF assms] by (simp add: STRID_LANGID_def STRID_SERIAL_def)

theorem string_descriptor_null_atomic_witness:
  "tud_descriptor_string_cb 3 [0x31, 0x32] string_desc_arr_cdc 7 0 (replicate 33 0xFFFF)
     = Inr (NULL, replicate 33 0xFFFF)
   \<and> (7 :: u8) \<noteq> STRID_LANGID \<and> (7 :: u8) \<noteq> STRID_SERIAL \<and> length string_desc_arr_cdc \<le> unat (7 :: u8)"
proof -
  have r: "tud_descriptor_string_cb 3 [0x31, 0x32] string_desc_arr_cdc 7 0 (replicate 33 0xFFFF)
     = Inr (NULL, replicate 33 0xFFFF)"
    by (simp add: cb_simps string_desc_arr_cdc_def)
  show ?thesis
    using string_descriptor_null_atomic [OF r] r by simp
qed

text \<open>
  Claim C8. The result and the final buffer do not depend on \<^verbatim>\<open>langid\<close>.
\<close>

theorem string_descriptor_langid_independent:
  "tud_descriptor_string_cb tag serial table index langid1 buf
   = tud_descriptor_string_cb tag serial table index langid2 buf"
  by (simp add: tud_descriptor_string_cb_def)

text \<open>
  Claim C9. On the CDC device, index 1 returns the buffer with a header whose length byte
  is 18, followed by the eight code units of \<^verbatim>\<open>ppm_loop\<close> in order.
\<close>

theorem cdc_manufacturer_string:
  assumes "length buf = 33"
  shows "tud_descriptor_string_cb tag serial string_desc_arr_cdc 1 langid buf
         = Inr (DESC_STR, desc_header tag 8 # map (\<lambda>c. of_nat (of_char c)) ''ppm_loop'' @ drop 9 buf)
    \<and> unat (lo_byte (desc_header tag 8)) = 18
    \<and> hi_byte (desc_header tag 8) = tag
    \<and> length (map (\<lambda>c. of_nat (of_char c) :: u16) ''ppm_loop'') = 8"
proof -
  have t: "unat (1 :: u8) < length string_desc_arr_cdc"
      "string_desc_arr_cdc ! unat (1 :: u8) = Some (cstr ''ppm_loop'')"
    by (simp_all add: string_desc_arr_cdc_def)
  have n: "strlen (cstr ''ppm_loop'') = Some 8"
    by (simp add: cstr_def)
  have p: "map ucast (take (min 8 32) (cstr ''ppm_loop'')) = map (\<lambda>c. of_nat (of_char c) :: u16) ''ppm_loop''"
    by (simp add: cstr_def)
  have "tud_descriptor_string_cb tag serial string_desc_arr_cdc 1 langid buf
      = Inr (DESC_STR, desc_header tag (min 8 32) # map ucast (take (min 8 32) (cstr ''ppm_loop''))
               @ drop (Suc (min 8 32)) buf)"
    using assms t n by (intro cb_default) simp_all
  then show ?thesis
    unfolding p using desc_header_bytes [of 8 tag] by simp
qed

theorem cdc_manufacturer_string_witness:
  "tud_descriptor_string_cb 3 [] string_desc_arr_cdc 1 0x0409 (replicate 33 0)
     = Inr (DESC_STR, [0x0312, 0x70, 0x70, 0x6D, 0x5F, 0x6C, 0x6F, 0x6F, 0x70] @ replicate 24 0)
   \<and> unat (lo_byte 0x0312) = 18 \<and> hi_byte 0x0312 = 3"
  using cdc_manufacturer_string [of "replicate 33 0" 3 "[]" "0x0409"]
  by (simp add: desc_header_def)


lemma cb_no_overrun:
  assumes "length buf = 33"
  shows "tud_descriptor_string_cb tag serial table index langid buf \<noteq> Inl OutOfBoundsWrite"
proof -
  consider "index = 0" | "index = 3" | "index \<noteq> 0" "index \<noteq> 3" by blast
  then show ?thesis
  proof cases
    case 1
    from assms obtain b bs where buf: "buf = b # bs" "length bs = 32" by (rule buf_split)
    then obtain c cs where bs: "bs = c # cs" by (cases bs) auto
    show ?thesis
      unfolding 1 buf bs
      by (simp add: cb_simps memcpy2_def store_def write_header_ok split: option.splits list.splits)
  next
    case 2
    show ?thesis
      unfolding 2 cb_serial [OF assms] by simp
  next
    case 3
    show ?thesis
    proof (cases "unat index < length table")
      case False
      with 3 show ?thesis by (simp add: cb_simps)
    next
      case True
      show ?thesis
      proof (cases "table ! unat index")
        case None
        with 3 True show ?thesis by (simp add: cb_simps)
      next
        case (Some str)
        show ?thesis
        proof (cases "strlen str")
          case None
          with 3 True Some show ?thesis by (simp add: cb_simps)
        next
          case (Some n)
          show ?thesis
            unfolding cb_default [OF assms 3 True \<open>table ! unat index = Some str\<close> Some] by simp
        qed
      qed
    qed
  qed
qed

lemma cb_length:
  assumes "length buf = 33"
    and "tud_descriptor_string_cb tag serial table index langid buf = Inr (p, buf')"
  shows "length buf' = 33"
proof (cases p)
  case NULL
  with assms cb_null [of tag serial table index langid buf buf'] show ?thesis by simp
next
  case DESC_STR
  let ?p = "string_payload serial table index"
  from cb_result [OF assms(1) assms(2) [unfolded DESC_STR]]
  have b: "buf' = desc_header tag (length ?p) # ?p @ drop (Suc (length ?p)) buf"
    and l: "length ?p \<le> 32" by simp_all
  have "length (desc_header tag (length ?p) # ?p @ drop (Suc (length ?p)) buf) = 33"
    using l assms(1) by simp
  with b show ?thesis by simp
qed


text \<open>
  Claim C5. No call writes outside the 33 entries of the scratch buffer, and a table
  string longer than 32 characters is copied as exactly its first 32 characters: with
  the header they fill the buffer.
\<close>

theorem string_descriptor_truncation:
  assumes "length buf = 33"
  shows "tud_descriptor_string_cb tag serial table index langid buf \<noteq> Inl OutOfBoundsWrite
    \<and> (\<forall>p buf'. tud_descriptor_string_cb tag serial table index langid buf = Inr (p, buf')
          \<longrightarrow> length buf' = 33)
    \<and> (index \<noteq> STRID_LANGID \<and> index \<noteq> STRID_SERIAL \<and> unat index < length table
          \<and> table ! unat index = Some str \<and> strlen str = Some n \<and> 32 < n
        \<longrightarrow> tud_descriptor_string_cb tag serial table index langid buf
              = Inr (DESC_STR, desc_header tag 32 # map ucast (take 32 str))
            \<and> length (map (ucast :: u8 \<Rightarrow> u16) (take 32 str)) = 32)"
proof (intro conjI allI impI)
  show "tud_descriptor_string_cb tag serial table index langid buf \<noteq> Inl OutOfBoundsWrite"
    using assms by (rule cb_no_overrun)
next
  fix p buf'
  assume "tud_descriptor_string_cb tag serial table index langid buf = Inr (p, buf')"
  with assms show "length buf' = 33" by (rule cb_length)
next
  assume a: "index \<noteq> STRID_LANGID \<and> index \<noteq> STRID_SERIAL \<and> unat index < length table
          \<and> table ! unat index = Some str \<and> strlen str = Some n \<and> 32 < n"
  then have i: "index \<noteq> 0" "index \<noteq> 3"
    by (simp_all add: STRID_LANGID_def STRID_SERIAL_def)
  from a have m: "min n 32 = 32" by simp
  have "tud_descriptor_string_cb tag serial table index langid buf
      = Inr (DESC_STR, desc_header tag (min n 32) # map ucast (take (min n 32) str)
               @ drop (Suc (min n 32)) buf)"
    using assms i a by (intro cb_default) simp_all
  then show "tud_descriptor_string_cb tag serial table index langid buf
      = Inr (DESC_STR, desc_header tag 32 # map ucast (take 32 str))"
    unfolding m using assms by simp
  from a strlen_Some [of str n] show "length (map (ucast :: u8 \<Rightarrow> u16) (take 32 str)) = 32"
    by simp
qed

theorem string_descriptor_truncation_witness:
  "tud_descriptor_string_cb 3 [] long_table 1 0 (replicate 33 0) \<noteq> Inl OutOfBoundsWrite
   \<and> tud_descriptor_string_cb 3 [] long_table 1 0 (replicate 33 0)
       = Inr (DESC_STR, desc_header 3 32
               # map ucast (take 32 (cstr ''0123456789012345678901234567890123456789'')))
   \<and> length (snd (projr (tud_descriptor_string_cb 3 [] long_table 1 0 (replicate 33 0)))) = 33"
proof -
  have h: "(1 :: u8) \<noteq> STRID_LANGID \<and> (1 :: u8) \<noteq> STRID_SERIAL \<and> unat (1 :: u8) < length long_table
      \<and> long_table ! unat (1 :: u8) = Some (cstr ''0123456789012345678901234567890123456789'')
      \<and> strlen (cstr ''0123456789012345678901234567890123456789'') = Some 40 \<and> (32 :: nat) < 40"
    by (simp add: STRID_LANGID_def STRID_SERIAL_def long_table_def cstr_def)
  have l: "length (replicate 33 (0 :: u16)) = 33" by simp
  note t = string_descriptor_truncation [OF l, of 3 "[]" long_table 1 0
      "cstr ''0123456789012345678901234567890123456789''" 40]
  from t h have r: "tud_descriptor_string_cb 3 [] long_table 1 0 (replicate 33 0)
       = Inr (DESC_STR, desc_header 3 32
               # map ucast (take 32 (cstr ''0123456789012345678901234567890123456789'')))"
    by blast
  from t r have "length (desc_header 3 32
               # map (ucast :: u8 \<Rightarrow> u16) (take 32 (cstr ''0123456789012345678901234567890123456789''))) = 33"
    by blast
  with t r show ?thesis by simp
qed

subsection \<open>The total length of the configuration descriptors\<close>

lemma total_length_field_config:
  assumes "n < 65536"
  shows "total_length_field (TUD_CONFIG_DESCRIPTOR c i s n a p @ rest) = n"
proof -
  define lo :: u8 where "lo = of_nat (n mod 256)"
  define hi :: u8 where "hi = of_nat (n div 256 mod 256)"
  have lo: "unat lo = n mod 256"
    unfolding lo_def by (simp only: unat_of_nat) simp
  have hi: "unat hi = n div 256 mod 256"
    unfolding hi_def by (simp only: unat_of_nat) simp
  have "U16_TO_U8S_LE n = [lo, hi]"
    by (simp only: U16_TO_U8S_LE_def lo_def hi_def)
  then have "total_length_field (TUD_CONFIG_DESCRIPTOR c i s n a p @ rest) = unat lo + 256 * unat hi"
    by (simp add: total_length_field_def TUD_CONFIG_DESCRIPTOR_def)
  moreover have "n div 256 < 256" using assms by simp
  ultimately show ?thesis
    by (simp add: lo hi)
qed

lemma length_config: "length (TUD_CONFIG_DESCRIPTOR c i s n a p) = TUD_CONFIG_DESC_LEN"
  by (simp add: TUD_CONFIG_DESCRIPTOR_def U16_TO_U8S_LE_def TUD_CONFIG_DESC_LEN_def)

text \<open>
  Claim C6. For both devices the total-length field of the header equals the number of
  bytes of the configuration descriptor the callback returns, provided the interface
  block has the length its \<^verbatim>\<open>_DESC_LEN\<close> constant declares, the audio device is built
  with \<^verbatim>\<open>CFG_TUD_AUDIO\<close> equal to 1, and the total fits the 16-bit field.
\<close>

theorem configuration_total_length:
  assumes "length cdc_desc = cdc_desc_len" "TUD_CONFIG_DESC_LEN + cdc_desc_len < 65536"
    and "length headset_desc = headset_desc_len" "cfg_tud_audio = 1"
    and "TUD_CONFIG_DESC_LEN + headset_desc_len < 65536"
  shows "total_length_field
           (tud_descriptor_configuration_cb (desc_configuration_cdc cdc_desc_len cdc_desc) index)
         = length (tud_descriptor_configuration_cb (desc_configuration_cdc cdc_desc_len cdc_desc) index)
    \<and> total_length_field
           (tud_descriptor_configuration_cb
              (desc_configuration_audio cfg_tud_audio itf_num_total headset_desc_len headset_desc) index)
         = length (tud_descriptor_configuration_cb
              (desc_configuration_audio cfg_tud_audio itf_num_total headset_desc_len headset_desc) index)"
  using assms
  by (simp add: tud_descriptor_configuration_cb_def desc_configuration_cdc_def
      desc_configuration_audio_def CONFIG_TOTAL_LEN_cdc_def CONFIG_TOTAL_LEN_audio_def
      total_length_field_config length_config)

theorem configuration_total_length_witness:
  "total_length_field (tud_descriptor_configuration_cb (desc_configuration_cdc 66 (replicate 66 0)) 0) = 75
   \<and> length (tud_descriptor_configuration_cb (desc_configuration_cdc 66 (replicate 66 0)) 0) = 75
   \<and> total_length_field
        (tud_descriptor_configuration_cb (desc_configuration_audio 1 3 200 (replicate 200 0)) 0) = 209
   \<and> length (tud_descriptor_configuration_cb (desc_configuration_audio 1 3 200 (replicate 200 0)) 0) = 209"
proof -
  have "length (tud_descriptor_configuration_cb (desc_configuration_cdc 66 (replicate 66 0)) 0) = 75"
    "length (tud_descriptor_configuration_cb (desc_configuration_audio 1 3 200 (replicate 200 0)) 0) = 209"
    by (simp_all add: tud_descriptor_configuration_cb_def desc_configuration_cdc_def
        desc_configuration_audio_def length_config TUD_CONFIG_DESC_LEN_def)
  then show ?thesis
    using configuration_total_length [where cdc_desc = "replicate 66 0" and cdc_desc_len = 66
        and headset_desc = "replicate 200 0" and headset_desc_len = 200 and cfg_tud_audio = 1
        and itf_num_total = 3 and index = 0]
    by (simp add: TUD_CONFIG_DESC_LEN_def)
qed

end
